theory Spec2Isabelle
  imports Complex_Main "HOL-Library.Word"
begin

section \<open>Data model of the graph (Visualizer.tsx)\<close>

text \<open>
  The interface \<^verbatim>\<open>NodeData\<close> has the fields \<^verbatim>\<open>id\<close>, \<^verbatim>\<open>name\<close>, \<^verbatim>\<open>type\<close> and the optional
  coordinates \<^verbatim>\<open>x\<close>, \<^verbatim>\<open>y\<close>, \<^verbatim>\<open>fx\<close>, \<^verbatim>\<open>fy\<close>. Every field carries the suffix \<open>_n\<close> here,
  since \<open>id\<close> is a constant of HOL and \<open>x\<close>, \<open>y\<close> are wanted as variables. A coordinate
  that is absent (\<^verbatim>\<open>undefined\<close> or \<^verbatim>\<open>null\<close>) is \<open>None\<close>. The functions below only store and
  copy coordinates, they never compute with them.
\<close>

datatype kind = Folder | File

record NodeData =
  id_n :: string
  name_n :: string
  type_n :: kind
  x_n :: "real option"
  y_n :: "real option"
  fx_n :: "real option"
  fy_n :: "real option"

text \<open>
  An end of a link is \<^verbatim>\<open>string | NodeData\<close>: the identity of a node, or the node object
  once the simulation has resolved it. \<^verbatim>\<open>getId\<close> reads the identity of either.
\<close>

datatype endpoint = IdString string | NodeObject NodeData

fun getId :: "endpoint \<Rightarrow> string" where
  "getId (NodeObject item) = id_n item"
| "getId (IdString item) = item"

record LinkData =
  source :: endpoint
  target :: endpoint

text \<open>The state \<^verbatim>\<open>graphData\<close> of the component \<^verbatim>\<open>App\<close>.\<close>

record GraphData =
  nodes :: "NodeData list"
  links :: "LinkData list"

section \<open>The directory listing (app.go)\<close>

text \<open>
  \<^verbatim>\<open>FileNode\<close> is the struct of app.go, which reaches the frontend as JSON with the keys
  \<^verbatim>\<open>name\<close>, \<^verbatim>\<open>path\<close>, \<^verbatim>\<open>type\<close>, \<^verbatim>\<open>size\<close>, \<^verbatim>\<open>children\<close>. \<^verbatim>\<open>Size\<close> is an \<^verbatim>\<open>int64\<close>.
\<close>

datatype FileNode =
  FileNode (Name: string) (Path: string) (Type: string) (Size: "64 word")
    (Children: "FileNode list")

datatype fs_error = FsError string

text \<open>
  What the operating system answers. \<^verbatim>\<open>os.ReadDir\<close> gives the entries of a directory or
  an error; an entry has a name, says whether it is a directory, and its \<^verbatim>\<open>Info()\<close>
  gives a \<^verbatim>\<open>FileInfo\<close> or an error (with a nil \<^verbatim>\<open>FileInfo\<close>). \<^verbatim>\<open>os.ReadDir\<close> and
  \<^verbatim>\<open>filepath.Join\<close> belong to the standard library and are parameters of the model.
\<close>

record FileInfo =
  info_Size :: "64 word"

record DirEntry =
  entry_Name :: string
  entry_IsDir :: bool
  entry_Info :: "fs_error + FileInfo"

text \<open>
  A call of \<^verbatim>\<open>ReadDir\<close> returns the pair of a slice and an error, or panics when it
  dereferences a nil \<^verbatim>\<open>FileInfo\<close>. A nil slice is the empty list.
\<close>

datatype go_result = Return "FileNode list" "fs_error option" | Panic

fun ReadDir_range ::
  "(string \<Rightarrow> string \<Rightarrow> string) \<Rightarrow> string \<Rightarrow> DirEntry list \<Rightarrow> FileNode list \<Rightarrow> go_result" where
  "ReadDir_range join path [] ns = Return ns None"
| "ReadDir_range join path (entry # entries) ns =
     (let node = FileNode (entry_Name entry) (join path (entry_Name entry)) ''file'' 0 []
      in if entry_IsDir entry
         then ReadDir_range join path entries
                (ns @ [FileNode (Name node) (Path node) ''folder'' (Size node) (Children node)])
         else (case entry_Info entry of
                 Inl _ \<Rightarrow> Panic
               | Inr info \<Rightarrow>
                   ReadDir_range join path entries
                     (ns @ [FileNode (Name node) (Path node) (Type node) (info_Size info)
                              (Children node)])))"

definition ReadDir ::
  "(string \<Rightarrow> fs_error + DirEntry list) \<Rightarrow> (string \<Rightarrow> string \<Rightarrow> string) \<Rightarrow> string \<Rightarrow> go_result" where
  "ReadDir os_ReadDir join path =
     (case os_ReadDir path of
        Inl err \<Rightarrow> Return [] (Some err)
      | Inr entries \<Rightarrow> ReadDir_range join path entries [])"

section \<open>The handlers of the component App\<close>

text \<open>
  The frontend calls the binding \<^verbatim>\<open>ReadDir(node.id)\<close> and awaits it. The awaited call
  throws the error (\<open>Inl\<close>), or gives \<^verbatim>\<open>null\<close> (\<open>Inr None\<close>, the JSON of a nil slice) or an
  array of entries.
\<close>

type_synonym provider = "string \<Rightarrow> fs_error + FileNode list option"

datatype console_line = ConsoleError string fs_error

datatype settled = Fulfilled | Rejected fs_error

text \<open>
  Each handler reads the state \<^verbatim>\<open>graphData\<close> that its closure captured, and hands
  \<^verbatim>\<open>setGraphData\<close> an update of the state \<^verbatim>\<open>prev\<close>. Both are parameters. When the calls of the
  handlers are processed one at a time, each to its end, the two are the same state; this
  is how \<open>Expand\<close>, \<open>Collapse\<close> and \<open>Toggle\<close> below run them.
\<close>

text \<open>
  \<^verbatim>\<open>getDescendants\<close> calls itself on each direct child, and the \<^verbatim>\<open>forEach\<close> appends what
  the call returns. The recursion need not end (a cycle of links), so the function is
  partial: \<open>None\<close> says that the call does not return (the recursion runs until the
  stack is exhausted, and the error leaves \<^verbatim>\<open>handleCompress\<close> with no update of the state).
\<close>

fun forEach :: "'a list \<Rightarrow> ('a \<Rightarrow> 's \<Rightarrow> 's option) \<Rightarrow> 's \<Rightarrow> 's option" where
  "forEach [] body s = Some s"
| "forEach (a # as) body s = Option.bind (body a s) (forEach as body)"

lemma forEach_mono [partial_function_mono]:
  assumes "\<And>a s. mono_option (\<lambda>f. body f a s)"
  shows "mono_option (\<lambda>f. forEach as (body f) s)"
  using assms by (induction as arbitrary: s) (auto intro!: partial_function_mono)

partial_function (option) getDescendants :: "string \<Rightarrow> LinkData list \<Rightarrow> string list option" where
  "getDescendants parentId ls =
     (let directChildren = map (\<lambda>link. getId (target link))
                             (filter (\<lambda>link. getId (source link) = parentId) ls)
      in forEach directChildren
           (\<lambda>childId childrenIds.
              Option.bind (getDescendants childId ls) (\<lambda>ds. Some (childrenIds @ ds)))
           directChildren)"

declare getDescendants.simps [code]

definition handleCompress :: "GraphData \<Rightarrow> GraphData \<Rightarrow> NodeData \<Rightarrow> GraphData option" where
  "handleCompress graphData prev node =
     (case getDescendants (id_n node) (links graphData) of
        None \<Rightarrow> None
      | Some ds \<Rightarrow>
          (let descendantsToRemove = set ds
           in Some \<lparr>nodes = filter (\<lambda>n. id_n n \<notin> descendantsToRemove) (nodes prev),
                    links = filter (\<lambda>l. getId (target l) \<notin> descendantsToRemove
                                       \<and> getId (source l) \<notin> descendantsToRemove)
                              (links prev)\<rparr>))"

text \<open>
  The loop \<^verbatim>\<open>files.forEach\<close> of \<^verbatim>\<open>handleExpand\<close>, pushing onto \<^verbatim>\<open>newNodes\<close> and
  \<^verbatim>\<open>newLinks\<close>.
\<close>

fun newEntries ::
  "GraphData \<Rightarrow> NodeData \<Rightarrow> FileNode list \<Rightarrow> NodeData list \<times> LinkData list
     \<Rightarrow> NodeData list \<times> LinkData list" where
  "newEntries graphData node [] acc = acc"
| "newEntries graphData node (f # files) (newNodes, newLinks) =
     (if find (\<lambda>n. id_n n = Path f) (nodes graphData) = None
      then newEntries graphData node files
             (newNodes @ [\<lparr>id_n = Path f, name_n = Name f,
                            type_n = (if Type f = ''folder'' then Folder else File),
                            x_n = None, y_n = None, fx_n = None, fy_n = None\<rparr>],
              newLinks @ [\<lparr>source = IdString (id_n node), target = IdString (Path f)\<rparr>])
      else newEntries graphData node files (newNodes, newLinks))"

text \<open>The body of the \<^verbatim>\<open>try\<close> block: \<open>Inl\<close> is the error thrown by the awaited call.\<close>

definition handleExpand_try ::
  "GraphData \<Rightarrow> GraphData \<Rightarrow> NodeData \<Rightarrow> provider \<Rightarrow> fs_error + GraphData" where
  "handleExpand_try graphData prev node rd =
     (case rd (id_n node) of
        Inl err \<Rightarrow> Inl err
      | Inr None \<Rightarrow> Inr prev
      | Inr (Some files) \<Rightarrow>
          (if length files = 0 then Inr prev
           else (case newEntries graphData node files ([], []) of
                   (newNodes, newLinks) \<Rightarrow>
                     if length newNodes > 0
                     then Inr \<lparr>nodes = nodes prev @ newNodes, links = links prev @ newLinks\<rparr>
                     else Inr prev)))"

record expand_result =
  state :: GraphData
  console :: "console_line list"
  promise :: settled

definition handleExpand ::
  "GraphData \<Rightarrow> GraphData \<Rightarrow> NodeData \<Rightarrow> provider \<Rightarrow> expand_result" where
  "handleExpand graphData prev node rd =
     (if type_n node \<noteq> Folder
      then \<lparr>state = prev, console = [], promise = Fulfilled\<rparr>
      else (case handleExpand_try graphData prev node rd of
              Inl err \<Rightarrow>
                \<lparr>state = prev, console = [ConsoleError ''Failed to read directory:'' err],
                 promise = Fulfilled\<rparr>
            | Inr g \<Rightarrow> \<lparr>state = g, console = [], promise = Fulfilled\<rparr>))"

text \<open>
  \<^verbatim>\<open>handleClick\<close> returns nothing; what it leaves behind is the state and the lines on the
  console. \<open>None\<close>: the call of \<^verbatim>\<open>handleCompress\<close> does not return.
\<close>

definition handleClick ::
  "GraphData \<Rightarrow> GraphData \<Rightarrow> NodeData \<Rightarrow> provider \<Rightarrow> (GraphData \<times> console_line list) option" where
  "handleClick graphData prev node rd =
     (if type_n node \<noteq> Folder then Some (prev, [])
      else let isAlreadyExpanded =
                 list_ex (\<lambda>link. getId (source link) = id_n node) (links graphData)
           in if isAlreadyExpanded
              then map_option (\<lambda>g. (g, [])) (handleCompress graphData prev node)
              else (let r = handleExpand graphData prev node rd
                    in Some (state r, console r)))"

definition Expand :: "GraphData \<Rightarrow> NodeData \<Rightarrow> provider \<Rightarrow> GraphData" where
  "Expand g node rd = state (handleExpand g g node rd)"

definition Collapse :: "GraphData \<Rightarrow> NodeData \<Rightarrow> GraphData option" where
  "Collapse g node = handleCompress g g node"

definition Toggle :: "GraphData \<Rightarrow> NodeData \<Rightarrow> provider \<Rightarrow> GraphData option" where
  "Toggle g node rd = map_option fst (handleClick g g node rd)"

text \<open>The graph that the first effect of \<^verbatim>\<open>App\<close> sets: the root node alone.\<close>

definition ROOT_PATH :: string where
  "ROOT_PATH = ''C:'' @ [CHR 0x5C] @ ''Users''"

definition rootNode :: NodeData where
  "rootNode = \<lparr>id_n = ROOT_PATH, name_n = ''ROOT'', type_n = Folder,
               x_n = None, y_n = None, fx_n = None, fy_n = None\<rparr>"

definition initialGraph :: GraphData where
  "initialGraph = \<lparr>nodes = [rootNode], links = []\<rparr>"

section \<open>The merge effect of the component Visualizer\<close>

text \<open>
  When \<^verbatim>\<open>initialData\<close> changes, the effect of \<^verbatim>\<open>Visualizer\<close> builds the nodes of the
  simulation: for each node of \<^verbatim>\<open>initialData\<close> the simulated node of the same identity
  when there is one (the \<^verbatim>\<open>Map\<close> keeps the last node of an identity), a copy of the node
  otherwise.
\<close>

definition mergeEffect :: "NodeData list \<Rightarrow> NodeData list \<Rightarrow> NodeData list" where
  "mergeEffect simNodes initialNodes =
     (let existingNodesMap = map_of (rev (map (\<lambda>n. (id_n n, n)) simNodes))
      in map (\<lambda>n. case existingNodesMap (id_n n) of Some e \<Rightarrow> e | None \<Rightarrow> n) initialNodes)"

section \<open>Notions used to state the properties\<close>

text \<open>The identities of the nodes of a graph, and its links as pairs of identities.\<close>

definition ids :: "GraphData \<Rightarrow> string set" where
  "ids g = id_n ` set (nodes g)"

definition edges :: "LinkData list \<Rightarrow> (string \<times> string) set" where
  "edges ls = (\<lambda>l. (getId (source l), getId (target l))) ` set ls"

text \<open>No link dangles: the source and the target of every link are nodes of the graph.\<close>

definition no_dangling :: "GraphData \<Rightarrow> bool" where
  "no_dangling g =
     (\<forall>l\<in>set (links g). getId (source l) \<in> ids g \<and> getId (target l) \<in> ids g)"

text \<open>
  An entry of a listing is fresh when no node has its path. \<open>newNode\<close> and \<open>newLink\<close> are
  the node and the link that \<^verbatim>\<open>handleExpand\<close> builds for a fresh entry.
\<close>

definition fresh :: "GraphData \<Rightarrow> FileNode \<Rightarrow> bool" where
  "fresh g f = (Path f \<notin> ids g)"

definition newNode :: "FileNode \<Rightarrow> NodeData" where
  "newNode f = \<lparr>id_n = Path f, name_n = Name f,
                type_n = (if Type f = ''folder'' then Folder else File),
                x_n = None, y_n = None, fx_n = None, fy_n = None\<rparr>"

definition newLink :: "NodeData \<Rightarrow> FileNode \<Rightarrow> LinkData" where
  "newLink node f = \<lparr>source = IdString (id_n node), target = IdString (Path f)\<rparr>"

text \<open>
  The \<^verbatim>\<open>FileNode\<close> that the contract of the listing asks for an entry of a directory: its
  name, the joined path, the kind, the size of a file, and no children.
\<close>

definition entryNode :: "(string \<Rightarrow> string \<Rightarrow> string) \<Rightarrow> string \<Rightarrow> DirEntry \<Rightarrow> FileNode" where
  "entryNode join path e =
     FileNode (entry_Name e) (join path (entry_Name e))
       (if entry_IsDir e then ''folder'' else ''file'')
       (if entry_IsDir e then 0 else info_Size (projr (entry_Info e)))
       []"

text \<open>
  What a call of \<^verbatim>\<open>handleExpand\<close> gets to merge: the entries of the listing, and none
  when the node is not a folder, the call fails or it gives \<^verbatim>\<open>null\<close>.
\<close>

definition listing :: "provider \<Rightarrow> NodeData \<Rightarrow> FileNode list" where
  "listing rd node =
     (if type_n node \<noteq> Folder then []
      else case rd (id_n node) of Inr (Some files) \<Rightarrow> files | _ \<Rightarrow> [])"

subsection \<open>Runs of the App\<close>

text \<open>
  The node that a click hands to \<^verbatim>\<open>handleClick\<close> is a node that \<^verbatim>\<open>Visualizer\<close> draws: it
  has the identity, the name and the kind of a node of the graph (and coordinates of its
  own).
\<close>

definition shown :: "GraphData \<Rightarrow> NodeData \<Rightarrow> bool" where
  "shown g node =
     (\<exists>m\<in>set (nodes g). id_n m = id_n node \<and> name_n m = name_n node \<and> type_n m = type_n node)"

text \<open>
  The entries of a listing have distinct paths, as the children of one directory have.
\<close>

definition distinct_listing :: "fs_error + FileNode list option \<Rightarrow> bool" where
  "distinct_listing r = (case r of Inr (Some files) \<Rightarrow> distinct (map Path files) | _ \<Rightarrow> True)"

text \<open>
  \<^verbatim>\<open>handleClick\<close> does not await \<^verbatim>\<open>handleExpand\<close>: a click on a folder with no outgoing
  link starts a call that keeps the \<^verbatim>\<open>graphData\<close> of the click and waits for its listing,
  and other clicks are handled in the meantime. When the listing arrives, the call tests
  the entries against the \<^verbatim>\<open>graphData\<close> it kept and updates the state of that moment.
  \<open>app_run g ps\<close>: the App can be in the state \<open>g\<close> with the calls \<open>ps\<close> waiting, each with
  the graph and the node it keeps.
\<close>

type_synonym pending = "GraphData \<times> NodeData"

inductive app_run :: "GraphData \<Rightarrow> pending list \<Rightarrow> bool" where
  mount: "app_run initialGraph []"
| click_file: "app_run g ps \<Longrightarrow> shown g node \<Longrightarrow> type_n node \<noteq> Folder \<Longrightarrow> app_run g ps"
| click_collapse:
    "app_run g ps \<Longrightarrow> shown g node \<Longrightarrow> type_n node = Folder \<Longrightarrow>
     list_ex (\<lambda>link. getId (source link) = id_n node) (links g) \<Longrightarrow>
     handleCompress g g node = Some g' \<Longrightarrow> app_run g' ps"
| click_expand:
    "app_run g ps \<Longrightarrow> shown g node \<Longrightarrow> type_n node = Folder \<Longrightarrow>
     \<not> list_ex (\<lambda>link. getId (source link) = id_n node) (links g) \<Longrightarrow>
     app_run g (ps @ [(g, node)])"
| answer:
    "app_run g (ps @ (graphData, node) # qs) \<Longrightarrow>
     app_run (state (handleExpand graphData g node rd)) (ps @ qs)"

text \<open>
  The runs in which every listing arrives and is applied before the next click: they
  chain calls of \<open>Toggle\<close>, each on a node that is drawn, where every answer of the listing
  satisfies \<open>ok\<close>. These are runs of the App, and not all of them.
\<close>

inductive serial_reachable :: "(fs_error + FileNode list option \<Rightarrow> bool) \<Rightarrow> GraphData \<Rightarrow> bool"
  for ok :: "fs_error + FileNode list option \<Rightarrow> bool" where
  start: "serial_reachable ok initialGraph"
| toggle: "serial_reachable ok g \<Longrightarrow> shown g node \<Longrightarrow> ok (rd (id_n node)) \<Longrightarrow>
           Toggle g node rd = Some g' \<Longrightarrow> serial_reachable ok g'"

text \<open>The links that come into an identity, and the invariant of a forest below the root.\<close>

definition incoming :: "GraphData \<Rightarrow> string \<Rightarrow> LinkData list" where
  "incoming g p = filter (\<lambda>l. getId (target l) = p) (links g)"

definition forest_inv :: "GraphData \<Rightarrow> bool" where
  "forest_inv g \<longleftrightarrow>
     distinct (map id_n (nodes g)) \<and> no_dangling g \<and> ROOT_PATH \<in> ids g
     \<and> (\<forall>n\<in>set (nodes g). id_n n \<noteq> ROOT_PATH \<longrightarrow> length (incoming g (id_n n)) = 1)
     \<and> incoming g ROOT_PATH = []
     \<and> acyclic (edges (links g))"

subsection \<open>Example graphs\<close>

text \<open>A node without coordinates, as the handlers build it, and a link between identities.\<close>

definition nodeOf :: "string \<Rightarrow> string \<Rightarrow> kind \<Rightarrow> NodeData" where
  "nodeOf p n k = \<lparr>id_n = p, name_n = n, type_n = k,
                   x_n = None, y_n = None, fx_n = None, fy_n = None\<rparr>"

definition linkOf :: "string \<Rightarrow> string \<Rightarrow> LinkData" where
  "linkOf a b = \<lparr>source = IdString a, target = IdString b\<rparr>"

text \<open>The root R with the children A and B, where A has the child C; and the same after A is collapsed.\<close>

definition tree_graph :: GraphData where
  "tree_graph = \<lparr>nodes = [nodeOf ''/R'' ''R'' Folder, nodeOf ''/R/A'' ''A'' Folder,
                           nodeOf ''/R/B'' ''B'' Folder, nodeOf ''/R/A/C'' ''C'' File],
                  links = [linkOf ''/R'' ''/R/A'', linkOf ''/R'' ''/R/B'',
                           linkOf ''/R/A'' ''/R/A/C'']\<rparr>"

definition tree_collapsed :: GraphData where
  "tree_collapsed = \<lparr>nodes = [nodeOf ''/R'' ''R'' Folder, nodeOf ''/R/A'' ''A'' Folder,
                               nodeOf ''/R/B'' ''B'' Folder],
                      links = [linkOf ''/R'' ''/R/A'', linkOf ''/R'' ''/R/B'']\<rparr>"

text \<open>
  A session on the directory \<^verbatim>\<open>/root\<close>, which holds the folder \<^verbatim>\<open>docs\<close> and the file
  \<^verbatim>\<open>a.txt\<close> of 42 bytes: the listing, the graph at the start and the graph once the root is
  expanded.
\<close>

definition listing_root :: provider where
  "listing_root p =
     (if p = ''/root''
      then Inr (Some [FileNode ''docs'' ''/root/docs'' ''folder'' 0 [],
                      FileNode ''a.txt'' ''/root/a.txt'' ''file'' 42 []])
      else Inl (FsError ''not a directory''))"

definition session_start :: GraphData where
  "session_start = \<lparr>nodes = [nodeOf ''/root'' ''ROOT'' Folder], links = []\<rparr>"

definition session_expanded :: GraphData where
  "session_expanded =
     \<lparr>nodes = [nodeOf ''/root'' ''ROOT'' Folder, nodeOf ''/root/docs'' ''docs'' Folder,
               nodeOf ''/root/a.txt'' ''a.txt'' File],
      links = [linkOf ''/root'' ''/root/docs'', linkOf ''/root'' ''/root/a.txt'']\<rparr>"

text \<open>A listing that fails.\<close>

definition denied :: provider where
  "denied p = Inl (FsError ''permission denied'')"

text \<open>
  A session on the root of the sources: a listing of \<open>ROOT_PATH\<close> and the graph once the
  root is expanded.
\<close>

definition users_listing :: provider where
  "users_listing p =
     (if p = ROOT_PATH
      then Inr (Some [FileNode ''aryan'' (ROOT_PATH @ CHR 0x5C # ''aryan'') ''folder'' 0 [],
                      FileNode ''desktop.ini'' (ROOT_PATH @ CHR 0x5C # ''desktop.ini'') ''file'' 174 []])
      else Inl (FsError ''not a directory''))"

definition users_graph :: GraphData where
  "users_graph =
     \<lparr>nodes = [rootNode, nodeOf (ROOT_PATH @ CHR 0x5C # ''aryan'') ''aryan'' Folder,
               nodeOf (ROOT_PATH @ CHR 0x5C # ''desktop.ini'') ''desktop.ini'' File],
      links = [linkOf ROOT_PATH (ROOT_PATH @ CHR 0x5C # ''aryan''),
               linkOf ROOT_PATH (ROOT_PATH @ CHR 0x5C # ''desktop.ini'')]\<rparr>"

text \<open>
  The listing of the folder \<^verbatim>\<open>aryan\<close>; the graph in which the children of the root are
  there twice; and the graph of the root and a file of \<^verbatim>\<open>aryan\<close>, with the link from
  \<^verbatim>\<open>aryan\<close> to the file.
\<close>

definition aryan_listing :: provider where
  "aryan_listing p =
     (if p = ROOT_PATH @ CHR 0x5C # ''aryan''
      then Inr (Some [FileNode ''notes.txt''
                        (ROOT_PATH @ CHR 0x5C # ''aryan'' @ CHR 0x5C # ''notes.txt'') ''file'' 12 []])
      else Inl (FsError ''not a directory''))"

definition users_doubled :: GraphData where
  "users_doubled =
     \<lparr>nodes = [rootNode, nodeOf (ROOT_PATH @ CHR 0x5C # ''aryan'') ''aryan'' Folder,
               nodeOf (ROOT_PATH @ CHR 0x5C # ''desktop.ini'') ''desktop.ini'' File,
               nodeOf (ROOT_PATH @ CHR 0x5C # ''aryan'') ''aryan'' Folder,
               nodeOf (ROOT_PATH @ CHR 0x5C # ''desktop.ini'') ''desktop.ini'' File],
      links = [linkOf ROOT_PATH (ROOT_PATH @ CHR 0x5C # ''aryan''),
               linkOf ROOT_PATH (ROOT_PATH @ CHR 0x5C # ''desktop.ini''),
               linkOf ROOT_PATH (ROOT_PATH @ CHR 0x5C # ''aryan''),
               linkOf ROOT_PATH (ROOT_PATH @ CHR 0x5C # ''desktop.ini'')]\<rparr>"

definition users_dangling :: GraphData where
  "users_dangling =
     \<lparr>nodes = [rootNode,
               nodeOf (ROOT_PATH @ CHR 0x5C # ''aryan'' @ CHR 0x5C # ''notes.txt'') ''notes.txt'' File],
      links = [linkOf (ROOT_PATH @ CHR 0x5C # ''aryan'')
                 (ROOT_PATH @ CHR 0x5C # ''aryan'' @ CHR 0x5C # ''notes.txt'')]\<rparr>"

section \<open>The listing of a directory\<close>

lemma ReadDir_range_ok:
  "\<forall>e\<in>set entries. \<not> entry_IsDir e \<longrightarrow> \<not> isl (entry_Info e) \<Longrightarrow>
   ReadDir_range join path entries ns = Return (ns @ map (entryNode join path) entries) None"
  by (induction entries arbitrary: ns) (auto simp: entryNode_def Let_def split: sum.splits)

lemma ReadDir_range_panic:
  "\<exists>e\<in>set entries. \<not> entry_IsDir e \<and> isl (entry_Info e) \<Longrightarrow>
   ReadDir_range join path entries ns = Panic"
  by (induction entries arbitrary: ns) (auto simp: Let_def split: sum.splits)

lemma ReadDir_range_sizes:
  "ReadDir_range join path entries ns = Return ms err \<Longrightarrow>
   \<forall>n\<in>set ns. Type n = ''folder'' \<longrightarrow> Size n = 0 \<Longrightarrow>
   \<forall>n\<in>set ms. Type n = ''folder'' \<longrightarrow> Size n = 0"
  by (induction entries arbitrary: ns) (auto simp: Let_def split: sum.splits if_splits)

text \<open>
  Claim C9. For every directory that can be read, \<^verbatim>\<open>ReadDir\<close> is to return its immediate
  children, each with its name, joined path, kind and size. Here the directory is read,
  it holds one file, and the \<^verbatim>\<open>Info()\<close> of that file fails (the file was removed after the
  directory was read): \<^verbatim>\<open>ReadDir\<close> drops the error, dereferences the nil \<^verbatim>\<open>FileInfo\<close> and
  panics instead of returning.
\<close>

theorem ReadDir_panics_when_Info_fails:
  "ReadDir (\<lambda>p. Inr [\<lparr>entry_Name = ''a.txt'', entry_IsDir = False,
                        entry_Info = Inl (FsError ''no such file or directory'')\<rparr>])
     join path = Panic"
  by (simp add: ReadDir_def)

text \<open>
  Claim C10. \<^verbatim>\<open>ReadDir\<close> drops the error of \<^verbatim>\<open>Info()\<close> and dereferences the \<^verbatim>\<open>FileInfo\<close>
  without a check: on a directory that is read, it panics exactly when the \<^verbatim>\<open>Info()\<close> of
  some entry that is not a directory fails. When \<^verbatim>\<open>Info()\<close> succeeds for every such
  entry, \<^verbatim>\<open>ReadDir\<close> returns, with no error, one \<^verbatim>\<open>FileNode\<close> for each entry in order. In
  whatever it returns, an entry of type folder has size 0.
\<close>

theorem ReadDir_total_when_Info_succeeds:
  assumes "os_ReadDir path = Inr entries"
  shows "(ReadDir os_ReadDir join path = Panic \<longleftrightarrow>
            (\<exists>e\<in>set entries. \<not> entry_IsDir e \<and> isl (entry_Info e)))
       \<and> ((\<forall>e\<in>set entries. \<not> entry_IsDir e \<longrightarrow> (\<exists>info. entry_Info e = Inr info)) \<longrightarrow>
            ReadDir os_ReadDir join path = Return (map (entryNode join path) entries) None)
       \<and> (\<forall>ns err. ReadDir os_ReadDir join path = Return ns err \<longrightarrow>
            (\<forall>n\<in>set ns. Type n = ''folder'' \<longrightarrow> Size n = 0))"
proof (intro conjI)
  show "ReadDir os_ReadDir join path = Panic \<longleftrightarrow>
          (\<exists>e\<in>set entries. \<not> entry_IsDir e \<and> isl (entry_Info e))"
  proof (cases "\<exists>e\<in>set entries. \<not> entry_IsDir e \<and> isl (entry_Info e)")
    case True
    then show ?thesis
      using assms ReadDir_range_panic [of entries join path "[]"] by (simp add: ReadDir_def)
  next
    case False
    then have "\<forall>e\<in>set entries. \<not> entry_IsDir e \<longrightarrow> \<not> isl (entry_Info e)" by blast
    from ReadDir_range_ok [OF this, of join path "[]"] False show ?thesis
      using assms by (simp add: ReadDir_def)
  qed
next
  show "(\<forall>e\<in>set entries. \<not> entry_IsDir e \<longrightarrow> (\<exists>info. entry_Info e = Inr info)) \<longrightarrow>
          ReadDir os_ReadDir join path = Return (map (entryNode join path) entries) None"
  proof
    assume "\<forall>e\<in>set entries. \<not> entry_IsDir e \<longrightarrow> (\<exists>info. entry_Info e = Inr info)"
    then have "\<forall>e\<in>set entries. \<not> entry_IsDir e \<longrightarrow> \<not> isl (entry_Info e)" by auto
    from ReadDir_range_ok [OF this, of join path "[]"] assms
    show "ReadDir os_ReadDir join path = Return (map (entryNode join path) entries) None"
      by (simp add: ReadDir_def)
  qed
next
  show "\<forall>ns err. ReadDir os_ReadDir join path = Return ns err \<longrightarrow>
          (\<forall>n\<in>set ns. Type n = ''folder'' \<longrightarrow> Size n = 0)"
    using assms ReadDir_range_sizes [of join path entries "[]"]
    by (simp add: ReadDir_def)
qed

theorem ReadDir_total_when_Info_succeeds_witness:
  "(ReadDir (\<lambda>p. Inr [\<lparr>entry_Name = ''docs'', entry_IsDir = True,
                          entry_Info = Inl (FsError ''gone'')\<rparr>,
                       \<lparr>entry_Name = ''a.txt'', entry_IsDir = False,
                          entry_Info = Inr \<lparr>info_Size = 42\<rparr>\<rparr>])
      (\<lambda>p n. p @ ''/'' @ n) ''/root''
    = Return [FileNode ''docs'' ''/root/docs'' ''folder'' 0 [],
              FileNode ''a.txt'' ''/root/a.txt'' ''file'' 42 []] None)"
  using ReadDir_total_when_Info_succeeds
    [of "\<lambda>p. Inr [\<lparr>entry_Name = ''docs'', entry_IsDir = True,
                      entry_Info = Inl (FsError ''gone'')\<rparr>,
                   \<lparr>entry_Name = ''a.txt'', entry_IsDir = False,
                      entry_Info = Inr \<lparr>info_Size = 42\<rparr>\<rparr>]"
        "''/root''" _ "\<lambda>p n. p @ ''/'' @ n"]
  by (simp add: entryNode_def)

section \<open>The handlers: auxiliary facts\<close>

lemma newEntries_eq:
  "newEntries g node files (ns, ls) =
     (ns @ map newNode (filter (fresh g) files), ls @ map (newLink node) (filter (fresh g) files))"
  by (induction files arbitrary: ns ls)
     (force simp: fresh_def ids_def newNode_def newLink_def find_None_iff)+

lemma forEach_append:
  "forEach cs (\<lambda>c acc. Option.bind (F c) (\<lambda>ds. Some (acc @ ds))) acc = Some r \<longleftrightarrow>
     (\<forall>c\<in>set cs. F c \<noteq> None) \<and> r = acc @ concat (map (\<lambda>c. the (F c)) cs)"
proof (induction cs arbitrary: acc)
  case Nil
  show ?case by auto
next
  case (Cons c cs)
  show ?case
  proof (cases "F c")
    case None
    then show ?thesis by simp
  next
    case (Some d)
    then show ?thesis using Cons.IH [of "acc @ d"] by simp
  qed
qed

lemma children_set:
  "set (map (\<lambda>link. getId (target link)) (filter (\<lambda>link. getId (source link) = p) ls))
     = edges ls `` {p}"
  by (auto simp: edges_def image_iff)

lemma getDescendants_leaf:
  "\<forall>l\<in>set ls. getId (source l) \<noteq> p \<Longrightarrow> getDescendants p ls = Some []"
  by (subst getDescendants.simps) (simp add: filter_False)

lemma trancl_image_unfold:
  "r\<^sup>+ `` {p} = r `` {p} \<union> (\<Union>c\<in>r `` {p}. r\<^sup>+ `` {c})"
proof (intro equalityI subsetI)
  fix q assume "q \<in> r\<^sup>+ `` {p}"
  then have "(p, q) \<in> r\<^sup>+" by simp
  then show "q \<in> r `` {p} \<union> (\<Union>c\<in>r `` {p}. r\<^sup>+ `` {c})"
    by (cases rule: converse_tranclE) auto
next
  fix q assume "q \<in> r `` {p} \<union> (\<Union>c\<in>r `` {p}. r\<^sup>+ `` {c})"
  then show "q \<in> r\<^sup>+ `` {p}"
    by (auto intro: trancl_into_trancl2)
qed

lemma getDescendants_sound:
  assumes "getDescendants p ls = Some ds"
  shows "set ds = (edges ls)\<^sup>+ `` {p} \<and> (p, p) \<notin> (edges ls)\<^sup>+"
  using assms
proof (induction p ls ds rule: getDescendants.raw_induct [rotated 1, consumes 1])
  case (1 gd p ls ds)
  define cs where "cs = map (\<lambda>link. getId (target link))
                          (filter (\<lambda>link. getId (source link) = p) ls)"
  let ?E = "edges ls"
  from 1(2) have run: "forEach cs
      (\<lambda>c acc. Option.bind (gd c ls) (\<lambda>ds. Some (acc @ ds))) cs = Some ds"
    by (simp add: Let_def cs_def)
  then have all: "\<forall>c\<in>set cs. gd c ls \<noteq> None"
    and ds: "ds = cs @ concat (map (\<lambda>c. the (gd c ls)) cs)"
    unfolding forEach_append by blast+
  have cs: "set cs = ?E `` {p}" unfolding cs_def by (rule children_set)
  have ih: "set (the (gd c ls)) = ?E\<^sup>+ `` {c} \<and> (c, c) \<notin> ?E\<^sup>+" if "c \<in> ?E `` {p}" for c
  proof -
    from that have "c \<in> set cs" unfolding cs .
    with all obtain d where "gd c ls = Some d" by blast
    with 1(1) [of c ls d] show ?thesis by simp
  qed
  have "set ds = set cs \<union> (\<Union>c\<in>set cs. set (the (gd c ls)))"
    unfolding ds by auto
  also have "\<dots> = ?E `` {p} \<union> (\<Union>c\<in>?E `` {p}. ?E\<^sup>+ `` {c})"
    unfolding cs using ih by blast
  finally have A: "set ds = ?E\<^sup>+ `` {p}"
    using trancl_image_unfold [of ?E p] by simp
  have B: "(p, p) \<notin> ?E\<^sup>+"
  proof
    assume "(p, p) \<in> ?E\<^sup>+"
    then consider "(p, p) \<in> ?E" | c where "(p, c) \<in> ?E" "(c, p) \<in> ?E\<^sup>+"
      by (rule converse_tranclE) blast+
    then show False
    proof cases
      case 1
      then have "p \<in> ?E `` {p}" by simp
      with ih [of p] 1 show False by auto
    next
      case 2
      then have "(c, c) \<in> ?E\<^sup>+" by (meson trancl_into_trancl)
      moreover from 2 have "c \<in> ?E `` {p}" by simp
      ultimately show False using ih [of c] by simp
    qed
  qed
  from A B show ?case by simp
qed

lemma getDescendants_terminates:
  assumes "acyclic (edges ls)"
  shows "\<exists>ds. getDescendants p ls = Some ds"
proof -
  have "finite (edges ls)" by (simp add: edges_def)
  with assms have "wf ((edges ls)\<inverse>)" by (simp add: finite_acyclic_wf_converse)
  then show ?thesis
  proof (induction p rule: wf_induct_rule)
    case (less p)
    let ?cs = "map (\<lambda>link. getId (target link)) (filter (\<lambda>link. getId (source link) = p) ls)"
    have "\<forall>c\<in>set ?cs. getDescendants c ls \<noteq> None"
    proof
      fix c assume "c \<in> set ?cs"
      then have "(c, p) \<in> (edges ls)\<inverse>" unfolding children_set by simp
      from less [OF this] show "getDescendants c ls \<noteq> None" by auto
    qed
    then have "forEach ?cs (\<lambda>c acc. Option.bind (getDescendants c ls) (\<lambda>ds. Some (acc @ ds))) ?cs
                 = Some (?cs @ concat (map (\<lambda>c. the (getDescendants c ls)) ?cs))"
      unfolding forEach_append by simp
    then show ?case
      by (subst getDescendants.simps) (simp add: Let_def)
  qed
qed

lemma handleExpand_try_eq:
  "handleExpand_try g prev node rd =
     (case rd (id_n node) of
        Inl err \<Rightarrow> Inl err
      | Inr None \<Rightarrow> Inr prev
      | Inr (Some files) \<Rightarrow>
          Inr \<lparr>nodes = nodes prev @ map newNode (filter (fresh g) files),
               links = links prev @ map (newLink node) (filter (fresh g) files)\<rparr>)"
  by (auto simp: handleExpand_try_def newEntries_eq split: sum.splits option.splits)

lemma Expand_eq:
  "Expand g node rd =
     \<lparr>nodes = nodes g @ map newNode (filter (fresh g) (listing rd node)),
      links = links g @ map (newLink node) (filter (fresh g) (listing rd node))\<rparr>"
  by (auto simp: Expand_def handleExpand_def handleExpand_try_eq listing_def
           split: sum.splits option.splits)

lemma acyclic_no_edges: "acyclic {}"
  by (simp add: acyclic_def)

lemma getDescendants_step:
  assumes "\<forall>c\<in>set (map (\<lambda>link. getId (target link))
                       (filter (\<lambda>link. getId (source link) = p) ls)).
             getDescendants c ls = Some (D c)"
  shows "getDescendants p ls
           = Some (map (\<lambda>link. getId (target link)) (filter (\<lambda>link. getId (source link) = p) ls)
                   @ concat (map D (map (\<lambda>link. getId (target link))
                                      (filter (\<lambda>link. getId (source link) = p) ls))))"
proof -
  define cs where "cs = map (\<lambda>link. getId (target link))
                          (filter (\<lambda>link. getId (source link) = p) ls)"
  from assms have all: "\<forall>c\<in>set cs. getDescendants c ls = Some (D c)"
    unfolding cs_def .
  then have m: "map (\<lambda>c. the (getDescendants c ls)) cs = map D cs" by simp
  from all have "forEach cs (\<lambda>c acc. Option.bind (getDescendants c ls) (\<lambda>ds. Some (acc @ ds))) cs
                 = Some (cs @ concat (map D cs))"
    unfolding forEach_append m by simp
  then show ?thesis
    by (subst getDescendants.simps) (simp add: Let_def cs_def)
qed

lemma handleCompress_Some:
  assumes "handleCompress g prev node = Some g'"
  shows "nodes g' = filter (\<lambda>n. id_n n \<notin> (edges (links g))\<^sup>+ `` {id_n node}) (nodes prev)"
    and "links g' = filter (\<lambda>l. getId (target l) \<notin> (edges (links g))\<^sup>+ `` {id_n node}
                                \<and> getId (source l) \<notin> (edges (links g))\<^sup>+ `` {id_n node})
                      (links prev)"
    and "id_n node \<notin> (edges (links g))\<^sup>+ `` {id_n node}"
proof -
  from assms obtain ds where ds: "getDescendants (id_n node) (links g) = Some ds"
    by (cases "getDescendants (id_n node) (links g)") (simp_all add: handleCompress_def)
  from getDescendants_sound [OF ds]
  have D: "set ds = (edges (links g))\<^sup>+ `` {id_n node}"
    and nd: "(id_n node, id_n node) \<notin> (edges (links g))\<^sup>+" by simp_all
  from assms ds
  have g': "g' = \<lparr>nodes = filter (\<lambda>n. id_n n \<notin> set ds) (nodes prev),
                  links = filter (\<lambda>l. getId (target l) \<notin> set ds \<and> getId (source l) \<notin> set ds)
                            (links prev)\<rparr>"
    by (simp add: handleCompress_def Let_def)
  show "nodes g' = filter (\<lambda>n. id_n n \<notin> (edges (links g))\<^sup>+ `` {id_n node}) (nodes prev)"
    unfolding g' D by simp
  show "links g' = filter (\<lambda>l. getId (target l) \<notin> (edges (links g))\<^sup>+ `` {id_n node}
                                \<and> getId (source l) \<notin> (edges (links g))\<^sup>+ `` {id_n node})
                      (links prev)"
    unfolding g' D by simp
  from nd show "id_n node \<notin> (edges (links g))\<^sup>+ `` {id_n node}" by simp
qed

lemma handleCompress_terminates:
  "acyclic (edges (links g)) \<Longrightarrow> \<exists>g'. handleCompress g prev node = Some g'"
  using getDescendants_terminates [of "links g" "id_n node"]
  by (auto simp: handleCompress_def Let_def)

lemma Collapse_tree:
  "Collapse tree_graph (nodeOf ''/R/A'' ''A'' Folder) = Some tree_collapsed"
proof -
  have leaf: "getDescendants ''/R/A/C'' (links tree_graph) = Some []"
    by (rule getDescendants_leaf) (simp add: tree_graph_def linkOf_def)
  have "getDescendants ''/R/A'' (links tree_graph) = Some [''/R/A/C'']"
    using getDescendants_step [of "''/R/A''" "links tree_graph" "\<lambda>c. []"] leaf
    by (simp add: tree_graph_def linkOf_def)
  then show ?thesis
    by (simp add: Collapse_def handleCompress_def nodeOf_def tree_graph_def tree_collapsed_def
        linkOf_def)
qed

lemma acyclic_tree: "acyclic (edges (links tree_graph))"
  by (simp add: tree_graph_def edges_def linkOf_def acyclic_no_edges rtrancl_insert)

section \<open>The traversal of the descendants\<close>

text \<open>
  Claim C8. The traversal \<^verbatim>\<open>getDescendants\<close> returns on every list of links without a
  cycle, whatever the node. When no link leaves the node, and so on the empty list of
  links, it returns the empty list.
\<close>

theorem getDescendants_terminates_on_forest:
  "(acyclic (edges ls) \<longrightarrow> (\<exists>ds. getDescendants p ls = Some ds))
   \<and> ((\<forall>l\<in>set ls. getId (source l) \<noteq> p) \<longrightarrow> getDescendants p ls = Some [])
   \<and> getDescendants p [] = Some []"
  using getDescendants_terminates [of ls p] getDescendants_leaf [of ls p]
    getDescendants_leaf [of "[]" p]
  by simp

theorem getDescendants_terminates_on_forest_witness:
  "acyclic (edges [linkOf ''/r'' ''/r/a'', linkOf ''/r/a'' ''/r/a/c''])
   \<and> (\<exists>ds. getDescendants ''/r'' [linkOf ''/r'' ''/r/a'', linkOf ''/r/a'' ''/r/a/c''] = Some ds)
   \<and> \<not> (\<exists>l\<in>set [linkOf ''/r'' ''/r/a'', linkOf ''/r/a'' ''/r/a/c'']. getId (source l) = ''/r/a/c'')
   \<and> getDescendants ''/r/a/c'' [linkOf ''/r'' ''/r/a'', linkOf ''/r/a'' ''/r/a/c''] = Some []"
proof -
  have a: "acyclic (edges [linkOf ''/r'' ''/r/a'', linkOf ''/r/a'' ''/r/a/c''])"
    by (simp add: edges_def linkOf_def acyclic_no_edges rtrancl_insert)
  have b: "\<forall>l\<in>set [linkOf ''/r'' ''/r/a'', linkOf ''/r/a'' ''/r/a/c'']. getId (source l) \<noteq> ''/r/a/c''"
    by (simp add: linkOf_def)
  show ?thesis
    using a b
      getDescendants_terminates_on_forest
        [of "[linkOf ''/r'' ''/r/a'', linkOf ''/r/a'' ''/r/a/c'']" "''/r''"]
      getDescendants_terminates_on_forest
        [of "[linkOf ''/r'' ''/r/a'', linkOf ''/r/a'' ''/r/a/c'']" "''/r/a/c''"]
    by blast
qed

section \<open>Collapse\<close>

text \<open>
  Claim C5. Whenever \<open>Collapse\<close> of a node returns, it has removed exactly the nodes whose
  identity is a descendant of the node (reached from it over one link or more) and
  exactly the links whose source or target is such a descendant; the node itself is no
  descendant and stays. On a graph without a cycle \<open>Collapse\<close> returns. In the tree of R
  with the children A and B, where A has the child C, collapsing A removes the node C and
  the link from A to C, and keeps R, A, B and the links from R to A and from R to B.
\<close>

theorem Collapse_removes_descendants:
  "(\<forall>g'. Collapse g node = Some g' \<longrightarrow>
        nodes g' = filter (\<lambda>n. id_n n \<notin> (edges (links g))\<^sup>+ `` {id_n node}) (nodes g)
      \<and> links g' = filter (\<lambda>l. getId (target l) \<notin> (edges (links g))\<^sup>+ `` {id_n node}
                                \<and> getId (source l) \<notin> (edges (links g))\<^sup>+ `` {id_n node})
                      (links g)
      \<and> id_n node \<notin> (edges (links g))\<^sup>+ `` {id_n node}
      \<and> (\<forall>n\<in>set (nodes g). id_n n = id_n node \<longrightarrow> n \<in> set (nodes g')))
   \<and> (acyclic (edges (links g)) \<longrightarrow> (\<exists>g'. Collapse g node = Some g'))
   \<and> Collapse tree_graph (nodeOf ''/R/A'' ''A'' Folder) = Some tree_collapsed"
proof (intro conjI allI impI)
  fix g' assume c: "Collapse g node = Some g'"
  then have h: "handleCompress g g node = Some g'" by (simp add: Collapse_def)
  show "nodes g' = filter (\<lambda>n. id_n n \<notin> (edges (links g))\<^sup>+ `` {id_n node}) (nodes g)"
    by (rule handleCompress_Some(1) [OF h])
  show "links g' = filter (\<lambda>l. getId (target l) \<notin> (edges (links g))\<^sup>+ `` {id_n node}
                                \<and> getId (source l) \<notin> (edges (links g))\<^sup>+ `` {id_n node})
                      (links g)"
    by (rule handleCompress_Some(2) [OF h])
  show "id_n node \<notin> (edges (links g))\<^sup>+ `` {id_n node}"
    by (rule handleCompress_Some(3) [OF h])
  show "\<forall>n\<in>set (nodes g). id_n n = id_n node \<longrightarrow> n \<in> set (nodes g')"
    using handleCompress_Some(1) [OF h] handleCompress_Some(3) [OF h] by simp
next
  assume "acyclic (edges (links g))"
  then show "\<exists>g'. Collapse g node = Some g'"
    unfolding Collapse_def by (rule handleCompress_terminates)
next
  show "Collapse tree_graph (nodeOf ''/R/A'' ''A'' Folder) = Some tree_collapsed"
    by (rule Collapse_tree)
qed

theorem Collapse_removes_descendants_witness:
  "acyclic (edges (links tree_graph))
   \<and> Collapse tree_graph (nodeOf ''/R/A'' ''A'' Folder) = Some tree_collapsed
   \<and> nodes tree_collapsed
       = filter (\<lambda>n. id_n n \<notin> (edges (links tree_graph))\<^sup>+ `` {id_n (nodeOf ''/R/A'' ''A'' Folder)})
           (nodes tree_graph)
   \<and> id_n (nodeOf ''/R/A'' ''A'' Folder)
       \<notin> (edges (links tree_graph))\<^sup>+ `` {id_n (nodeOf ''/R/A'' ''A'' Folder)}"
  using Collapse_removes_descendants [of tree_graph "nodeOf ''/R/A'' ''A'' Folder"] acyclic_tree
  by blast

section \<open>Toggle\<close>

text \<open>
  Claim C6. \<open>Toggle\<close> of a node of kind file leaves the graph as it is. For a folder it is
  \<open>Collapse\<close> exactly when some link has the node as its source, and \<open>Expand\<close> otherwise.
\<close>

theorem Toggle_dispatch:
  "(type_n node = File \<longrightarrow> Toggle g node rd = Some g)
   \<and> (type_n node = Folder \<and> (\<exists>l\<in>set (links g). getId (source l) = id_n node) \<longrightarrow>
        Toggle g node rd = Collapse g node)
   \<and> (type_n node = Folder \<and> \<not> (\<exists>l\<in>set (links g). getId (source l) = id_n node) \<longrightarrow>
        Toggle g node rd = Some (Expand g node rd))"
  by (auto simp: Toggle_def handleClick_def Collapse_def Expand_def list_ex_iff Let_def
      option.map_comp comp_def option.map_ident)

theorem Toggle_dispatch_witness:
  "type_n (nodeOf ''/root/a.txt'' ''a.txt'' File) = File
   \<and> Toggle session_expanded (nodeOf ''/root/a.txt'' ''a.txt'' File) listing_root
       = Some session_expanded
   \<and> type_n (nodeOf ''/root'' ''ROOT'' Folder) = Folder
   \<and> (\<exists>l\<in>set (links session_expanded). getId (source l) = id_n (nodeOf ''/root'' ''ROOT'' Folder))
   \<and> Toggle session_expanded (nodeOf ''/root'' ''ROOT'' Folder) listing_root
       = Collapse session_expanded (nodeOf ''/root'' ''ROOT'' Folder)
   \<and> \<not> (\<exists>l\<in>set (links session_start). getId (source l) = id_n (nodeOf ''/root'' ''ROOT'' Folder))
   \<and> Toggle session_start (nodeOf ''/root'' ''ROOT'' Folder) listing_root
       = Some (Expand session_start (nodeOf ''/root'' ''ROOT'' Folder) listing_root)"
  using Toggle_dispatch [of "nodeOf ''/root/a.txt'' ''a.txt'' File" session_expanded listing_root]
    Toggle_dispatch [of "nodeOf ''/root'' ''ROOT'' Folder" session_expanded listing_root]
    Toggle_dispatch [of "nodeOf ''/root'' ''ROOT'' Folder" session_start listing_root]
  by (simp add: nodeOf_def linkOf_def session_expanded_def session_start_def)

lemma concat_map_Nil: "concat (map (\<lambda>c. []) cs) = []"
  by (induction cs) simp_all

lemma Expand_Collapse:
  assumes nd: "no_dangling g"
    and present: "id_n node \<in> ids g"
    and closed: "\<not> (\<exists>l\<in>set (links g). getId (source l) = id_n node)"
  shows "Collapse (Expand g node rd) node = Some g"
proof -
  define F where "F = filter (fresh g) (listing rd node)"
  define P where "P = map Path F"
  define g1 where "g1 = Expand g node rd"
  have n1: "nodes g1 = nodes g @ map newNode F"
    and l1: "links g1 = links g @ map (newLink node) F"
    unfolding g1_def F_def by (simp_all add: Expand_eq)
  have freshP: "\<And>c. c \<in> set P \<Longrightarrow> c \<notin> ids g"
    unfolding P_def F_def by (auto simp: fresh_def)
  have old_src: "\<And>l. l \<in> set (links g) \<Longrightarrow> getId (source l) \<in> ids g"
    and old_tgt: "\<And>l. l \<in> set (links g) \<Longrightarrow> getId (target l) \<in> ids g"
    using nd by (auto simp: no_dangling_def)
  have f_old: "filter (\<lambda>link. getId (source link) = id_n node) (links g) = []"
    using closed by (simp add: filter_empty_conv)
  have children: "map (\<lambda>link. getId (target link))
                    (filter (\<lambda>link. getId (source link) = id_n node) (links g1)) = P"
    unfolding l1 P_def by (simp add: f_old newLink_def comp_def)
  have leaf: "getDescendants c (links g1) = Some []" if "c \<in> set P" for c
  proof (rule getDescendants_leaf, rule ballI)
    fix l assume "l \<in> set (links g1)"
    then consider "l \<in> set (links g)" | "getId (source l) = id_n node"
      unfolding l1 by (auto simp: newLink_def)
    then show "getId (source l) \<noteq> c"
    proof cases
      case 1
      with old_src [of l] freshP [OF that] show ?thesis by auto
    next
      case 2
      with present freshP [OF that] show ?thesis by auto
    qed
  qed
  have "getDescendants (id_n node) (links g1) = Some (P @ concat (map (\<lambda>c. []) P))"
    using getDescendants_step [of "id_n node" "links g1" "\<lambda>c. []"] leaf
    unfolding children by simp
  then have gd: "getDescendants (id_n node) (links g1) = Some P"
    by (simp add: concat_map_Nil)
  have keep_n: "filter (\<lambda>n. id_n n \<notin> set P) (nodes g) = nodes g"
    using freshP by (auto simp: filter_id_conv ids_def)
  have drop_n: "filter (\<lambda>n. id_n n \<notin> set P) (map newNode F) = []"
    by (auto simp: filter_empty_conv P_def newNode_def)
  have keep_l: "filter (\<lambda>l. getId (target l) \<notin> set P \<and> getId (source l) \<notin> set P) (links g)
                  = links g"
    using freshP old_src old_tgt by (auto simp: filter_id_conv)
  have drop_l: "filter (\<lambda>l. getId (target l) \<notin> set P \<and> getId (source l) \<notin> set P)
                  (map (newLink node) F) = []"
    by (auto simp: filter_empty_conv P_def newLink_def)
  have "handleCompress g1 g1 node
          = Some \<lparr>nodes = filter (\<lambda>n. id_n n \<notin> set P) (nodes g1),
                  links = filter (\<lambda>l. getId (target l) \<notin> set P \<and> getId (source l) \<notin> set P)
                            (links g1)\<rparr>"
    by (simp add: handleCompress_def gd Let_def)
  also have "\<dots> = Some \<lparr>nodes = nodes g, links = links g\<rparr>"
    by (simp add: n1 l1 keep_n drop_n keep_l drop_l)
  finally show ?thesis
    unfolding g1_def Collapse_def by simp
qed

lemma id_newNode: "id_n (newNode f) = Path f"
  by (simp add: newNode_def)

lemma ids_Expand: "ids (Expand g node rd) = ids g \<union> Path ` set (filter (fresh g) (listing rd node))"
  by (simp add: Expand_eq ids_def image_Un image_image id_newNode)

text \<open>
  A second expansion that starts from the graph the first has left changes nothing when
  the listing is the same, and in any case only appends entries whose path is no node
  yet; the merge effect keeps the simulated nodes with their coordinates.
\<close>

lemma Expand_same_listing:
  assumes "rd2 (id_n node) = rd1 (id_n node)"
  shows "Expand (Expand g node rd1) node rd2 = Expand g node rd1"
proof -
  have L: "listing rd2 node = listing rd1 node"
    using assms by (simp add: listing_def)
  have "filter (fresh (Expand g node rd1)) (listing rd1 node) = []"
    by (auto simp: filter_empty_conv fresh_def ids_Expand)
  then show ?thesis
    by (simp add: Expand_eq [of "Expand g node rd1"] L)
qed

lemma Expand_appends:
  "\<exists>ns ls. nodes (Expand g node rd) = nodes g @ ns \<and> links (Expand g node rd) = links g @ ls
      \<and> (\<forall>n\<in>set ns. id_n n \<notin> ids g) \<and> (\<forall>l\<in>set ls. getId (target l) \<notin> ids g)"
  by (auto simp: Expand_eq fresh_def newNode_def newLink_def)

lemma mergeEffect_reuse:
  assumes d: "distinct (map id_n sim)"
    and m: "map id_n sim = map id_n ns"
    and f: "\<forall>n\<in>set extra. id_n n \<notin> id_n ` set sim"
  shows "mergeEffect sim (ns @ extra) = sim @ extra"
proof -
  define M where "M = map_of (rev (map (\<lambda>n. (id_n n, n)) sim))"
  have dk: "distinct (map fst (rev (map (\<lambda>n. (id_n n, n)) sim)))"
    using d by (simp add: rev_map [symmetric] comp_def)
  have hit: "M (id_n v) = Some v" if "v \<in> set sim" for v
    unfolding M_def using that dk by (simp add: map_of_eq_Some_iff image_iff)
  have miss: "M (id_n n) = None" if "n \<in> set extra" for n
    unfolding M_def using that f by (auto simp: map_of_eq_None_iff image_iff)
  have len: "length sim = length ns"
    using m by (metis length_map)
  have "map (\<lambda>n. case M (id_n n) of Some e \<Rightarrow> e | None \<Rightarrow> n) ns = sim"
  proof (rule nth_equalityI)
    show "length (map (\<lambda>n. case M (id_n n) of Some e \<Rightarrow> e | None \<Rightarrow> n) ns) = length sim"
      using len by simp
  next
    fix i assume "i < length (map (\<lambda>n. case M (id_n n) of Some e \<Rightarrow> e | None \<Rightarrow> n) ns)"
    then have i: "i < length ns" by simp
    with len have "id_n (ns ! i) = id_n (sim ! i)"
      using m by (metis nth_map)
    moreover have "sim ! i \<in> set sim" using i len by simp
    ultimately show "map (\<lambda>n. case M (id_n n) of Some e \<Rightarrow> e | None \<Rightarrow> n) ns ! i = sim ! i"
      using i hit [of "sim ! i"] by simp
  qed
  moreover have "map (\<lambda>n. case M (id_n n) of Some e \<Rightarrow> e | None \<Rightarrow> n) extra = extra"
    using miss by (simp add: map_idI)
  ultimately show ?thesis
    by (simp add: mergeEffect_def M_def [symmetric])
qed

lemma Expand_session:
  "Expand session_start (nodeOf ''/root'' ''ROOT'' Folder) listing_root = session_expanded"
  by (simp add: Expand_eq listing_def listing_root_def fresh_def ids_def newNode_def newLink_def
      nodeOf_def linkOf_def session_start_def session_expanded_def)

section \<open>Expand\<close>

text \<open>
  Claim C1. Take a graph in which no link dangles, a node F of it, and no link with F as
  its source. \<open>Expand\<close> of F, whatever the listing gives, followed by \<open>Collapse\<close> of F
  returns the graph as it was before: the same list of nodes (so F itself is still there,
  with its coordinates) and the same list of links.
\<close>

theorem Expand_then_Collapse_roundtrip:
  assumes "no_dangling g"
    and "id_n node \<in> ids g"
    and "\<not> (\<exists>l\<in>set (links g). getId (source l) = id_n node)"
  shows "Collapse (Expand g node rd) node = Some g"
  using assms by (rule Expand_Collapse)

theorem Expand_then_Collapse_roundtrip_witness:
  "no_dangling session_start
   \<and> id_n (nodeOf ''/root'' ''ROOT'' Folder) \<in> ids session_start
   \<and> \<not> (\<exists>l\<in>set (links session_start). getId (source l) = id_n (nodeOf ''/root'' ''ROOT'' Folder))
   \<and> Expand session_start (nodeOf ''/root'' ''ROOT'' Folder) listing_root = session_expanded
   \<and> Collapse session_expanded (nodeOf ''/root'' ''ROOT'' Folder) = Some session_start"
proof -
  have a: "no_dangling session_start"
    by (simp add: no_dangling_def session_start_def)
  have b: "id_n (nodeOf ''/root'' ''ROOT'' Folder) \<in> ids session_start"
    by (simp add: ids_def session_start_def)
  have c: "\<not> (\<exists>l\<in>set (links session_start).
                getId (source l) = id_n (nodeOf ''/root'' ''ROOT'' Folder))"
    by (simp add: session_start_def)
  from Expand_then_Collapse_roundtrip [OF a b c, of listing_root] a b c
  show ?thesis by (simp add: Expand_session)
qed

text \<open>
  Claim C3, as the sources have it. When the listing fails, \<^verbatim>\<open>handleExpand\<close> leaves the
  state as it is, catches the error itself and writes one line on the console; its promise
  is fulfilled, not rejected, and \<^verbatim>\<open>handleClick\<close> returns as usual.
\<close>

theorem Expand_failure_is_logged:
  assumes "type_n node = Folder" and "rd (id_n node) = Inl err"
  shows "handleExpand graphData prev node rd
           = \<lparr>state = prev, console = [ConsoleError ''Failed to read directory:'' err],
              promise = Fulfilled\<rparr>
       \<and> (\<not> (\<exists>l\<in>set (links graphData). getId (source l) = id_n node) \<longrightarrow>
            handleClick graphData prev node rd
              = Some (prev, [ConsoleError ''Failed to read directory:'' err]))"
  using assms
  by (simp add: handleExpand_def handleExpand_try_eq handleClick_def list_ex_iff Let_def)

theorem Expand_failure_is_logged_witness:
  "type_n (nodeOf ''/root'' ''ROOT'' Folder) = Folder
   \<and> denied (id_n (nodeOf ''/root'' ''ROOT'' Folder)) = Inl (FsError ''permission denied'')
   \<and> handleExpand session_start session_start (nodeOf ''/root'' ''ROOT'' Folder) denied
       = \<lparr>state = session_start,
          console = [ConsoleError ''Failed to read directory:'' (FsError ''permission denied'')],
          promise = Fulfilled\<rparr>
   \<and> \<not> (\<exists>l\<in>set (links session_start). getId (source l) = id_n (nodeOf ''/root'' ''ROOT'' Folder))
   \<and> handleClick session_start session_start (nodeOf ''/root'' ''ROOT'' Folder) denied
       = Some (session_start,
               [ConsoleError ''Failed to read directory:'' (FsError ''permission denied'')])"
proof -
  have a: "type_n (nodeOf ''/root'' ''ROOT'' Folder) = Folder" by (simp add: nodeOf_def)
  have b: "denied (id_n (nodeOf ''/root'' ''ROOT'' Folder)) = Inl (FsError ''permission denied'')"
    by (simp add: denied_def)
  have c: "\<not> (\<exists>l\<in>set (links session_start).
                getId (source l) = id_n (nodeOf ''/root'' ''ROOT'' Folder))"
    by (simp add: session_start_def)
  from Expand_failure_is_logged
         [of "nodeOf ''/root'' ''ROOT'' Folder" denied "FsError ''permission denied''"
             session_start session_start] a b c
  show ?thesis by simp
qed

text \<open>
  Claim C3, as the specification has it, asks that the failure reaches the caller as a
  rejected outcome. On the session at its start, with a listing that is denied, the
  promise of \<^verbatim>\<open>handleExpand\<close> is fulfilled and \<^verbatim>\<open>handleClick\<close> returns.
\<close>

theorem Expand_failure_not_rejected:
  "promise (handleExpand session_start session_start (nodeOf ''/root'' ''ROOT'' Folder) denied)
     = Fulfilled
   \<and> promise (handleExpand session_start session_start (nodeOf ''/root'' ''ROOT'' Folder) denied)
       \<noteq> Rejected (FsError ''permission denied'')
   \<and> handleClick session_start session_start (nodeOf ''/root'' ''ROOT'' Folder) denied
       = Some (session_start,
               [ConsoleError ''Failed to read directory:'' (FsError ''permission denied'')])"
  by (simp add: handleExpand_def handleExpand_try_eq handleClick_def denied_def nodeOf_def
      session_start_def)

section \<open>Listings applied before the next click: invariants\<close>

lemma Toggle_cases:
  assumes "Toggle g node rd = Some g'"
  obtains "g' = g" | "Collapse g node = Some g'" | "g' = Expand g node rd"
  using assms
  by (auto simp: Toggle_def handleClick_def Collapse_def Expand_def Let_def
      split: if_splits)

lemma shown_id: "shown g node \<Longrightarrow> id_n node \<in> ids g"
  by (auto simp: shown_def ids_def intro: rev_image_eqI)

lemma links_Expand:
  "links (Expand g node rd) = links g @ map (newLink node) (filter (fresh g) (listing rd node))"
  by (simp add: Expand_eq)

lemma no_dangling_Expand:
  assumes "no_dangling g" and "id_n node \<in> ids g"
  shows "no_dangling (Expand g node rd)"
  using assms unfolding no_dangling_def links_Expand ids_Expand
  by (auto simp: newLink_def)

lemma ids_Collapse:
  assumes "Collapse g node = Some g'"
  shows "ids g' = ids g - (edges (links g))\<^sup>+ `` {id_n node}"
  using handleCompress_Some(1) [OF assms [unfolded Collapse_def]]
  by (auto simp: ids_def)

lemma links_Collapse:
  assumes "Collapse g node = Some g'"
  shows "set (links g') = {l \<in> set (links g).
           getId (target l) \<notin> (edges (links g))\<^sup>+ `` {id_n node}
         \<and> getId (source l) \<notin> (edges (links g))\<^sup>+ `` {id_n node}}"
  using handleCompress_Some(2) [OF assms [unfolded Collapse_def]]
  by auto

lemma no_dangling_Collapse:
  assumes "no_dangling g" and "Collapse g node = Some g'"
  shows "no_dangling g'"
  using assms(1) unfolding no_dangling_def ids_Collapse [OF assms(2)] links_Collapse [OF assms(2)]
  by auto

text \<open>
  When every listing is applied before the next click, no link dangles, whatever the
  listings answer.
\<close>

lemma serial_no_dangling:
  "serial_reachable ok g \<Longrightarrow> no_dangling g"
proof (induction rule: serial_reachable.induct)
  case start
  show ?case by (simp add: no_dangling_def initialGraph_def)
next
  case (toggle g node rd g')
  from toggle.hyps(4) show ?case
  proof (cases rule: Toggle_cases)
    case 1
    with toggle.IH show ?thesis by simp
  next
    case 2
    from no_dangling_Collapse [OF toggle.IH 2] show ?thesis .
  next
    case 3
    with toggle.IH shown_id [OF toggle.hyps(2)] show ?thesis
      by (simp add: no_dangling_Expand)
  qed
qed

lemma acyclic_add_leaves:
  assumes ac: "acyclic r" and a: "a \<notin> B" and B: "B \<inter> Domain r = {}"
  shows "acyclic (r \<union> {a} \<times> B)"
proof -
  let ?R = "r \<union> {a} \<times> B"
  have step: "(x, y) \<in> r\<^sup>+ \<or> y \<in> B" if "(x, y) \<in> ?R\<^sup>+" for x y
    using that
  proof (induction rule: trancl_induct)
    case (base y)
    then show ?case by auto
  next
    case (step y z)
    from step.hyps(2) consider "(y, z) \<in> r" | "z \<in> B" by auto
    then show ?case
    proof cases
      case 1
      then have "y \<in> Domain r" by auto
      with B have "y \<notin> B" by auto
      with step.IH have "(x, y) \<in> r\<^sup>+" by simp
      with 1 show ?thesis by (meson trancl_into_trancl)
    next
      case 2
      then show ?thesis by simp
    qed
  qed
  show ?thesis
    unfolding acyclic_def
  proof (intro allI notI)
    fix x assume c: "(x, x) \<in> ?R\<^sup>+"
    from step [OF c] ac have xB: "x \<in> B" by (auto simp: acyclic_def)
    from c obtain z where "(x, z) \<in> ?R" by (meson tranclD)
    with xB a B show False by auto
  qed
qed

lemma edges_append: "edges (xs @ ys) = edges xs \<union> edges ys"
  by (auto simp: edges_def)

lemma edges_newLinks: "edges (map (newLink node) F) = {id_n node} \<times> Path ` set F"
  by (auto simp: edges_def newLink_def image_iff)

lemma length_filter_distinct_key:
  "distinct (map h xs) \<Longrightarrow> x \<in> set xs \<Longrightarrow> length (filter (\<lambda>y. h y = h x) xs) = 1"
proof (induction xs)
  case Nil
  then show ?case by simp
next
  case (Cons a xs)
  show ?case
  proof (cases "a = x")
    case True
    with Cons.prems have "\<forall>y\<in>set xs. h y \<noteq> h x" by (auto simp: image_iff)
    then have "filter (\<lambda>y. h y = h x) xs = []" by (simp add: filter_empty_conv)
    with True show ?thesis by simp
  next
    case False
    with Cons.prems have x: "x \<in> set xs" and "h a \<noteq> h x" by (auto simp: image_iff)
    with Cons.IH Cons.prems show ?thesis by simp
  qed
qed

lemma forest_inv_Expand:
  assumes inv: "forest_inv g" and present: "id_n node \<in> ids g"
    and ok: "distinct_listing (rd (id_n node))"
  shows "forest_inv (Expand g node rd)"
proof -
  define F where "F = filter (fresh g) (listing rd node)"
  define g' where "g' = Expand g node rd"
  have n': "nodes g' = nodes g @ map newNode F"
    and l': "links g' = links g @ map (newLink node) F"
    unfolding g'_def F_def by (simp_all add: Expand_eq)
  have ids': "ids g' = ids g \<union> Path ` set F"
    unfolding g'_def F_def by (rule ids_Expand)
  from inv have d: "distinct (map id_n (nodes g))" and nd: "no_dangling g"
    and root: "ROOT_PATH \<in> ids g"
    and one: "\<And>n. n \<in> set (nodes g) \<Longrightarrow> id_n n \<noteq> ROOT_PATH \<Longrightarrow> length (incoming g (id_n n)) = 1"
    and none: "incoming g ROOT_PATH = []"
    and ac: "acyclic (edges (links g))"
    by (simp_all add: forest_inv_def)
  have "distinct (map Path (listing rd node))"
    using ok by (auto simp: distinct_listing_def listing_def split: sum.splits option.splits)
  then have dF: "distinct (map Path F)"
    unfolding F_def by (rule distinct_map_filter)
  have freshF: "\<And>f. f \<in> set F \<Longrightarrow> Path f \<notin> ids g"
    unfolding F_def by (simp add: fresh_def)
  have old_tgt: "\<And>l. l \<in> set (links g) \<Longrightarrow> getId (target l) \<in> ids g"
    and old_src: "\<And>l. l \<in> set (links g) \<Longrightarrow> getId (source l) \<in> ids g"
    using nd by (auto simp: no_dangling_def)
  have inc_old: "incoming g' p = incoming g p" if "p \<in> ids g" for p
  proof -
    have "filter (\<lambda>l. getId (target l) = p) (map (newLink node) F) = []"
      using that freshF by (auto simp: filter_empty_conv newLink_def)
    then show ?thesis by (simp add: incoming_def l')
  qed
  have inc_new: "length (incoming g' (Path f)) = 1" if "f \<in> set F" for f
  proof -
    have "filter (\<lambda>l. getId (target l) = Path f) (links g) = []"
      using freshF [OF that] old_tgt by (fastforce simp: filter_empty_conv)
    moreover have "filter (\<lambda>l. getId (target l) = Path f) (map (newLink node) F)
                     = map (newLink node) (filter (\<lambda>f'. Path f' = Path f) F)"
      by (simp add: filter_map comp_def newLink_def)
    ultimately show ?thesis
      using length_filter_distinct_key [OF dF that] by (simp add: incoming_def l')
  qed
  have disj: "\<And>n f. n \<in> set (nodes g) \<Longrightarrow> f \<in> set F \<Longrightarrow> id_n n \<noteq> Path f"
    using freshF unfolding ids_def by (metis imageI)
  have 1: "distinct (map id_n (nodes g'))"
    using d dF disj by (auto simp: n' comp_def id_newNode)
  have 2: "no_dangling g'"
    unfolding g'_def using nd present by (rule no_dangling_Expand)
  have 3: "ROOT_PATH \<in> ids g'" using root ids' by simp
  have 4: "\<forall>n\<in>set (nodes g'). id_n n \<noteq> ROOT_PATH \<longrightarrow> length (incoming g' (id_n n)) = 1"
  proof (intro ballI impI)
    fix n assume n: "n \<in> set (nodes g')" and nr: "id_n n \<noteq> ROOT_PATH"
    from n consider "n \<in> set (nodes g)" | f where "f \<in> set F" "n = newNode f"
      unfolding n' by auto
    then show "length (incoming g' (id_n n)) = 1"
    proof cases
      case 1
      then have "id_n n \<in> ids g" by (simp add: ids_def)
      with one [OF 1 nr] show ?thesis by (simp add: inc_old)
    next
      case 2
      with inc_new [of f] show ?thesis by (simp add: id_newNode)
    qed
  qed
  have 5: "incoming g' ROOT_PATH = []"
    using inc_old [OF root] none by simp
  have 6: "acyclic (edges (links g'))"
  proof -
    have "id_n node \<notin> Path ` set F" using present freshF by auto
    moreover have "Path ` set F \<inter> Domain (edges (links g)) = {}"
      using freshF old_src by (fastforce simp: edges_def)
    ultimately have "acyclic (edges (links g) \<union> {id_n node} \<times> Path ` set F)"
      using ac by (simp add: acyclic_add_leaves)
    then show ?thesis by (simp add: l' edges_append edges_newLinks)
  qed
  from 1 2 3 4 5 6 show ?thesis
    unfolding g'_def [symmetric] forest_inv_def by simp
qed

lemma forest_inv_Collapse:
  assumes inv: "forest_inv g" and c: "Collapse g node = Some g'"
  shows "forest_inv g'"
proof -
  define D where "D = (edges (links g))\<^sup>+ `` {id_n node}"
  have h: "handleCompress g g node = Some g'" using c by (simp add: Collapse_def)
  have n': "nodes g' = filter (\<lambda>n. id_n n \<notin> D) (nodes g)"
    unfolding D_def by (rule handleCompress_Some(1) [OF h])
  have l': "links g' = filter (\<lambda>l. getId (target l) \<notin> D \<and> getId (source l) \<notin> D) (links g)"
    unfolding D_def by (rule handleCompress_Some(2) [OF h])
  from inv have d: "distinct (map id_n (nodes g))" and nd: "no_dangling g"
    and root: "ROOT_PATH \<in> ids g"
    and one: "\<And>n. n \<in> set (nodes g) \<Longrightarrow> id_n n \<noteq> ROOT_PATH \<Longrightarrow> length (incoming g (id_n n)) = 1"
    and none: "incoming g ROOT_PATH = []"
    and ac: "acyclic (edges (links g))"
    by (simp_all add: forest_inv_def)
  have closed: "getId (target l) \<in> D" if "l \<in> set (links g)" "getId (source l) \<in> D" for l
  proof -
    from that(1) have "(getId (source l), getId (target l)) \<in> edges (links g)"
      by (auto simp: edges_def)
    with that(2) show ?thesis
      unfolding D_def by (auto intro: trancl_into_trancl)
  qed
  have targets: "\<exists>l\<in>set (links g). getId (target l) = p" if "p \<in> D" for p
  proof -
    from that have "(id_n node, p) \<in> (edges (links g))\<^sup>+" by (simp add: D_def)
    then obtain q where "(q, p) \<in> edges (links g)" by (meson tranclE)
    then show ?thesis by (auto simp: edges_def)
  qed
  have rootD: "ROOT_PATH \<notin> D"
  proof
    assume "ROOT_PATH \<in> D"
    from targets [OF this] none show False
      by (auto simp: incoming_def filter_empty_conv)
  qed
  have inc: "incoming g' p = incoming g p" if "p \<notin> D" for p
  proof -
    have "filter (\<lambda>l. getId (target l) = p)
            (filter (\<lambda>l. getId (target l) \<notin> D \<and> getId (source l) \<notin> D) (links g))
          = filter (\<lambda>l. getId (target l) = p) (links g)"
      unfolding filter_filter
      by (rule filter_cong [OF refl]) (use closed that in auto)
    then show ?thesis by (simp add: incoming_def l')
  qed
  have 1: "distinct (map id_n (nodes g'))"
    unfolding n' using d by (rule distinct_map_filter)
  have 2: "no_dangling g'"
    using nd c by (rule no_dangling_Collapse)
  have 3: "ROOT_PATH \<in> ids g'"
    using root rootD unfolding ids_Collapse [OF c] D_def by simp
  have 4: "\<forall>n\<in>set (nodes g'). id_n n \<noteq> ROOT_PATH \<longrightarrow> length (incoming g' (id_n n)) = 1"
    using one inc by (simp add: n')
  have 5: "incoming g' ROOT_PATH = []"
    using inc [OF rootD] none by simp
  have 6: "acyclic (edges (links g'))"
  proof (rule acyclic_subset [OF ac])
    show "edges (links g') \<subseteq> edges (links g)"
      by (auto simp: edges_def l')
  qed
  from 1 2 3 4 5 6 show ?thesis
    unfolding forest_inv_def by simp
qed

lemma forest_inv_initial: "forest_inv initialGraph"
  by (simp add: forest_inv_def initialGraph_def rootNode_def no_dangling_def ids_def
      incoming_def edges_def acyclic_no_edges)

text \<open>
  When every listing is applied before the next click and lists distinct paths, the graph
  is a forest below the root.
\<close>

lemma serial_forest_inv:
  "serial_reachable distinct_listing g \<Longrightarrow> forest_inv g"
proof (induction rule: serial_reachable.induct)
  case start
  show ?case by (rule forest_inv_initial)
next
  case (toggle g node rd g')
  from toggle.hyps(4) show ?case
  proof (cases rule: Toggle_cases)
    case 1
    with toggle.IH show ?thesis by simp
  next
    case 2
    from forest_inv_Collapse [OF toggle.IH 2] show ?thesis .
  next
    case 3
    from forest_inv_Expand [of g node rd, OF toggle.IH shown_id [OF toggle.hyps(2)] toggle.hyps(3)] 3
    show ?thesis by simp
  qed
qed

section \<open>Listings that arrive after other clicks\<close>

text \<open>The runs with every listing applied before the next click are runs of the App.\<close>

lemma serial_app_run:
  "serial_reachable ok g \<Longrightarrow> app_run g []"
proof (induction rule: serial_reachable.induct)
  case start
  show ?case by (rule app_run.mount)
next
  case (toggle g node rd g')
  show ?case
  proof (cases "type_n node = Folder")
    case False
    with toggle.hyps(4) have "g' = g"
      by (simp add: Toggle_def handleClick_def)
    with toggle.IH show ?thesis by simp
  next
    case True
    show ?thesis
    proof (cases "list_ex (\<lambda>link. getId (source link) = id_n node) (links g)")
      case ex: True
      with True toggle.hyps(4) have "handleCompress g g node = Some g'"
        by (auto simp: Toggle_def handleClick_def Let_def)
      from app_run.click_collapse [OF toggle.IH toggle.hyps(2) True ex this]
      show ?thesis .
    next
      case nex: False
      with True toggle.hyps(4) have g': "g' = state (handleExpand g g node rd)"
        by (auto simp: Toggle_def handleClick_def Let_def)
      from app_run.click_expand [OF toggle.IH toggle.hyps(2) True nex]
      have "app_run g ([] @ (g, node) # [])" by simp
      from app_run.answer [OF this, of rd] show ?thesis by (simp add: g')
    qed
  qed
qed

lemma expand_users: "state (handleExpand initialGraph initialGraph rootNode users_listing) = users_graph"
  by (simp add: handleExpand_def handleExpand_try_eq
      users_listing_def users_graph_def initialGraph_def rootNode_def fresh_def ids_def
      newNode_def newLink_def nodeOf_def linkOf_def)

lemma expand_users_stale:
  "state (handleExpand initialGraph users_graph rootNode users_listing) = users_doubled"
  by (simp add: handleExpand_def handleExpand_try_eq
      users_listing_def users_graph_def users_doubled_def initialGraph_def rootNode_def
      fresh_def ids_def newNode_def newLink_def nodeOf_def linkOf_def)

lemma shown_root: "shown initialGraph rootNode"
  by (simp add: shown_def initialGraph_def)

lemma app_run_users_doubled: "app_run users_doubled []"
proof -
  have t: "type_n rootNode = Folder" by (simp add: rootNode_def)
  have n: "\<not> list_ex (\<lambda>link. getId (source link) = id_n rootNode) (links initialGraph)"
    by (simp add: initialGraph_def)
  from app_run.click_expand [OF app_run.mount shown_root t n]
  have "app_run initialGraph [(initialGraph, rootNode)]" by simp
  from app_run.click_expand [OF this shown_root t n]
  have "app_run initialGraph ([] @ (initialGraph, rootNode) # [(initialGraph, rootNode)])"
    by simp
  from app_run.answer [OF this, of users_listing]
  have "app_run users_graph ([] @ (initialGraph, rootNode) # [])"
    by (simp add: expand_users)
  from app_run.answer [OF this, of users_listing]
  show ?thesis by (simp add: expand_users_stale)
qed

lemma collapse_users: "handleCompress users_graph users_graph rootNode = Some initialGraph"
proof -
  have leaf1: "getDescendants (ROOT_PATH @ CHR 0x5C # ''aryan'') (links users_graph) = Some []"
    by (rule getDescendants_leaf) (simp add: users_graph_def linkOf_def)
  have leaf2: "getDescendants (ROOT_PATH @ CHR 0x5C # ''desktop.ini'') (links users_graph) = Some []"
    by (rule getDescendants_leaf) (simp add: users_graph_def linkOf_def)
  have "getDescendants (id_n rootNode) (links users_graph)
          = Some [ROOT_PATH @ CHR 0x5C # ''aryan'', ROOT_PATH @ CHR 0x5C # ''desktop.ini'']"
    using getDescendants_step [of "id_n rootNode" "links users_graph" "\<lambda>c. []"] leaf1 leaf2
    by (simp add: users_graph_def linkOf_def rootNode_def)
  then show ?thesis
    by (simp add: handleCompress_def users_graph_def initialGraph_def rootNode_def nodeOf_def
        linkOf_def)
qed

lemma expand_aryan_stale:
  "state (handleExpand users_graph initialGraph
            (nodeOf (ROOT_PATH @ CHR 0x5C # ''aryan'') ''aryan'' Folder) aryan_listing)
     = users_dangling"
  by (simp add: handleExpand_def handleExpand_try_eq
      aryan_listing_def users_graph_def users_dangling_def initialGraph_def rootNode_def
      fresh_def ids_def newNode_def newLink_def nodeOf_def linkOf_def)

lemma app_run_users_graph: "app_run users_graph []"
proof -
  have t: "type_n rootNode = Folder" by (simp add: rootNode_def)
  have n: "\<not> list_ex (\<lambda>link. getId (source link) = id_n rootNode) (links initialGraph)"
    by (simp add: initialGraph_def)
  from app_run.click_expand [OF app_run.mount shown_root t n]
  have "app_run initialGraph ([] @ (initialGraph, rootNode) # [])" by simp
  from app_run.answer [OF this, of users_listing]
  show ?thesis by (simp add: expand_users)
qed

lemma app_run_users_dangling: "app_run users_dangling []"
proof -
  let ?A = "nodeOf (ROOT_PATH @ CHR 0x5C # ''aryan'') ''aryan'' Folder"
  have sA: "shown users_graph ?A"
    by (simp add: shown_def users_graph_def)
  have tA: "type_n ?A = Folder" by (simp add: nodeOf_def)
  have nA: "\<not> list_ex (\<lambda>link. getId (source link) = id_n ?A) (links users_graph)"
    by (simp add: users_graph_def nodeOf_def linkOf_def)
  from app_run.click_expand [OF app_run_users_graph sA tA nA]
  have 1: "app_run users_graph [(users_graph, ?A)]" by simp
  have sR: "shown users_graph rootNode"
    by (simp add: shown_def users_graph_def)
  have tR: "type_n rootNode = Folder" by (simp add: rootNode_def)
  have eR: "list_ex (\<lambda>link. getId (source link) = id_n rootNode) (links users_graph)"
    by (simp add: users_graph_def rootNode_def linkOf_def)
  from app_run.click_collapse [OF 1 sR tR eR collapse_users]
  have "app_run initialGraph ([] @ (users_graph, ?A) # [])" by simp
  from app_run.answer [OF this, of aryan_listing]
  show ?thesis by (simp add: expand_aryan_stale)
qed

text \<open>
  Claim C2. In every state that calls of \<open>Toggle\<close> reach, the source and the target of every
  link are to be nodes of the graph. Here the root is expanded, the folder \<^verbatim>\<open>aryan\<close> is
  clicked, the root is clicked and collapsed while the listing of \<^verbatim>\<open>aryan\<close> is awaited,
  and then the listing arrives: \<^verbatim>\<open>handleExpand\<close> appends the file of \<^verbatim>\<open>aryan\<close> and the link
  from \<^verbatim>\<open>aryan\<close> to it, and \<^verbatim>\<open>aryan\<close> is no node of the graph any more.
\<close>

theorem late_listing_leaves_dangling_link:
  "app_run users_dangling []
   \<and> linkOf (ROOT_PATH @ CHR 0x5C # ''aryan'')
        (ROOT_PATH @ CHR 0x5C # ''aryan'' @ CHR 0x5C # ''notes.txt'') \<in> set (links users_dangling)
   \<and> getId (source (linkOf (ROOT_PATH @ CHR 0x5C # ''aryan'')
        (ROOT_PATH @ CHR 0x5C # ''aryan'' @ CHR 0x5C # ''notes.txt''))) \<notin> ids users_dangling"
  using app_run_users_dangling
  by (simp add: users_dangling_def ids_def linkOf_def rootNode_def nodeOf_def)

text \<open>
  Claim C4. Expanding a folder twice with no collapse in between is not to duplicate a
  node or a link: an entry whose path is a node already is to be skipped. Here the root
  is clicked twice before its listing arrives. Both calls of \<^verbatim>\<open>handleExpand\<close> test the
  entries against the graph of the clicks, which has the root alone, and the second
  appends to the graph that the first has updated: every child and every link is there
  twice.
\<close>

theorem double_click_duplicates_children:
  "state (handleExpand initialGraph
            (state (handleExpand initialGraph initialGraph rootNode users_listing))
            rootNode users_listing) = users_doubled
   \<and> app_run users_doubled []
   \<and> \<not> distinct (map id_n (nodes users_doubled))
   \<and> \<not> distinct (links users_doubled)"
  using app_run_users_doubled
  by (simp add: expand_users expand_users_stale) (simp add: users_doubled_def)

text \<open>
  Claim C7. In every state that calls of \<open>Toggle\<close> reach, every node other than the root is
  to have exactly one incoming link. After the two clicks on the root above, with a
  listing of distinct paths, the node of \<^verbatim>\<open>aryan\<close> has two incoming links.
\<close>

theorem double_click_breaks_forest:
  "app_run users_doubled []
   \<and> distinct_listing (users_listing (id_n rootNode))
   \<and> nodeOf (ROOT_PATH @ CHR 0x5C # ''aryan'') ''aryan'' Folder \<in> set (nodes users_doubled)
   \<and> id_n (nodeOf (ROOT_PATH @ CHR 0x5C # ''aryan'') ''aryan'' Folder) \<noteq> ROOT_PATH
   \<and> length (incoming users_doubled
               (id_n (nodeOf (ROOT_PATH @ CHR 0x5C # ''aryan'') ''aryan'' Folder))) = 2"
  using app_run_users_doubled
  by (simp add: users_doubled_def distinct_listing_def users_listing_def rootNode_def
      incoming_def nodeOf_def linkOf_def)

end
